theory Spec2Isabelle
  imports Main "HOL-Library.Word"
begin

section \<open>The SBWT index of \<^verbatim>\<open>include/SBWT.hh\<close>\<close>

text \<open>
  The class \<^verbatim>\<open>SBWT<subset_rank_t>\<close> is a template over the subset-rank structure.
  The embedding keeps that shape: the index is a record polymorphic in the type \<open>'r\<close> of
  the rank structure, and every operation that calls a method of \<^verbatim>\<open>subset_rank_t\<close>
  takes that method as its first argument (\<open>rank\<close> for \<^verbatim>\<open>subset_rank.rank\<close>, and so on).
  Theorems stated for an arbitrary \<open>rank\<close> hold for every instantiation of the template.

  Integers of type \<^verbatim>\<open>int64_t\<close> are modelled as \<open>int\<close>: all of them are column indices,
  lengths of bit vectors or sums of at most four ranks, and signed overflow is undefined in
  C++, so the model describes the runs in which no such overflow happens.
  \<^verbatim>\<open>char\<close> is the 8-bit \<open>char\<close> of HOL.
\<close>

subsection \<open>Characters, pointers and failures\<close>

type_synonym bit_vector = "bool list"

text \<open>\<^verbatim>\<open>toupper\<close> in the "C" locale: the letters a..z go to A..Z, every other byte stays.\<close>

definition toupper :: "char \<Rightarrow> char" where
  "toupper c =
     (if (97::nat) \<le> of_char c \<and> of_char c \<le> (122::nat)
      then char_of (of_char c - (32::nat)) else c)"

text \<open>
  A \<^verbatim>\<open>const char*\<close> is modelled by the view of memory it gives: \<open>S i\<close> is \<^verbatim>\<open>S[i]\<close>.
  Pointer arithmetic \<^verbatim>\<open>S + d\<close> shifts the view.
\<close>

type_synonym cptr = "int \<Rightarrow> char"

definition ptr_add :: "cptr \<Rightarrow> int \<Rightarrow> cptr" where
  "ptr_add S d = (\<lambda>j. S (d + j))"

text \<open>
  \<^verbatim>\<open>std::string::c_str\<close>: the characters of the string, then the terminating zero byte.
  Reads further out are not made by the code below on a string of the length it is given.
\<close>

definition c_str :: "string \<Rightarrow> cptr" where
  "c_str s = (\<lambda>i. if 0 \<le> i \<and> i < int (length s) then s ! nat i else CHR 0x00)"

text \<open>
  The ways a call can end without returning a value: the exception thrown by
  \<^verbatim>\<open>streaming_search\<close>, the \<^verbatim>\<open>exit(1)\<close> of \<^verbatim>\<open>search\<close>, a read with an unchecked
  \<^verbatim>\<open>operator[]\<close> outside a vector (undefined behaviour in C++), and a failed \<^verbatim>\<open>assert\<close>.
\<close>

datatype error = StreamingUnsupported | CorruptIndex | OutOfBounds | AssertionFailed

text \<open>Unchecked \<^verbatim>\<open>v[i]\<close> on a vector, with the out-of-range read made explicit.\<close>

definition at :: "'a list \<Rightarrow> int \<Rightarrow> 'a option" where
  "at v i = (if 0 \<le> i \<and> i < int (length v) then Some (v ! nat i) else None)"

subsection \<open>The index container\<close>

text \<open>
  The private fields of the class, lines 39 to 46, each under the name of its accessor
  (lines 78 to 84): \<^verbatim>\<open>colex\<close>, \<^verbatim>\<open>subset_rank\<close>, \<^verbatim>\<open>suffix_group_starts\<close>, \<^verbatim>\<open>C\<close>, \<^verbatim>\<open>n_nodes\<close>,
  \<^verbatim>\<open>k\<close> and \<^verbatim>\<open>n_kmers\<close>, in the order of the record.
\<close>

record 'r SBWT =
  is_colex :: bool
  get_subset_rank_structure :: 'r
  get_streaming_support :: bit_vector
  get_C_array :: "int list"
  number_of_subsets :: int
  get_k :: int
  number_of_kmers :: int

definition has_streaming_query_support :: "'r SBWT \<Rightarrow> bool" where
  "has_streaming_query_support idx = (length (get_streaming_support idx) > 0)"

text \<open>The default constructor, line 62; \<open>r0\<close> is the default-constructed rank structure.\<close>

definition SBWT_default :: "'r \<Rightarrow> 'r SBWT" where
  "SBWT_default r0 =
     \<lparr>is_colex = True, get_subset_rank_structure = r0, get_streaming_support = [],
      get_C_array = [], number_of_subsets = 0, get_k = 0, number_of_kmers = 0\<rparr>"

text \<open>
  The constructor from precomputed data, lines 103 to 119. \<open>build\<close> is the constructor
  of \<^verbatim>\<open>subset_rank_t\<close> from the four bit vectors. The C array is cleared, resized to four
  zeros and filled entry by entry, each entry from the one before.
\<close>

definition SBWT_construct ::
  "(bit_vector \<Rightarrow> bit_vector \<Rightarrow> bit_vector \<Rightarrow> bit_vector \<Rightarrow> 'r) \<Rightarrow> ('r \<Rightarrow> int \<Rightarrow> char \<Rightarrow> int)
     \<Rightarrow> bit_vector \<Rightarrow> bit_vector \<Rightarrow> bit_vector \<Rightarrow> bit_vector \<Rightarrow> bit_vector \<Rightarrow> int \<Rightarrow> int \<Rightarrow> bool
     \<Rightarrow> 'r SBWT" where
  "SBWT_construct build rank A_bits C_bits G_bits T_bits streaming_support k n_kmers colex =
     (let subset_rank = build A_bits C_bits G_bits T_bits;
          n_nodes = int (length A_bits);
          C0 = replicate 4 (0::int);
          C1 = C0[0 := 1];
          C2 = C1[1 := C1 ! 0 + rank subset_rank n_nodes CHR ''A''];
          C3 = C2[2 := C2 ! 1 + rank subset_rank n_nodes CHR ''C''];
          C4 = C3[3 := C3 ! 2 + rank subset_rank n_nodes CHR ''G'']
      in \<lparr>is_colex = colex, get_subset_rank_structure = subset_rank,
          get_streaming_support = streaming_support, get_C_array = C4,
          number_of_subsets = n_nodes, get_k = k, number_of_kmers = n_kmers\<rparr>)"

subsection \<open>The subset-rank structure\<close>

text \<open>
  Modelled from the spec: the subset-rank capability, the template argument
  \<^verbatim>\<open>subset_rank_t\<close>, none of whose implementations is among the sources. It is built from
  the four bit vectors, and \<open>rank i c\<close> is the number of columns \<open>j\<close> in \<open>[0, i)\<close> whose
  subset contains the character \<open>c\<close>. A subset holds characters of \<open>A, C, G, T\<close> only, so
  for any other character, a lower-case letter included, no column counts.
\<close>

datatype subset_matrix = SubsetMatrix bit_vector bit_vector bit_vector bit_vector

text \<open>The number of 1-bits of a bit vector.\<close>

definition count_ones :: "bit_vector \<Rightarrow> int" where
  "count_ones b = int (length (filter (\<lambda>x. x) b))"

text \<open>
  Modelled from the spec: the bit vector that says which columns hold the character \<open>c\<close> in
  their subset; no column holds a character other than \<open>A, C, G, T\<close>.
\<close>

fun matrix_column :: "subset_matrix \<Rightarrow> char \<Rightarrow> bit_vector" where
  "matrix_column (SubsetMatrix A_bits C_bits G_bits T_bits) c =
     (if c = CHR ''A'' then A_bits
      else if c = CHR ''C'' then C_bits
      else if c = CHR ''G'' then G_bits
      else if c = CHR ''T'' then T_bits
      else [])"

text \<open>
  Modelled from the spec: \<open>rank(i, c)\<close>, the number of columns in \<open>[0, i)\<close> whose subset contains
  \<open>c\<close>.
\<close>

definition matrix_rank :: "subset_matrix \<Rightarrow> int \<Rightarrow> char \<Rightarrow> int" where
  "matrix_rank m i c = count_ones (take (nat i) (matrix_column m c))"

subsection \<open>\<^verbatim>\<open>SBWT::search(const char*)\<close>\<close>

text \<open>
  The \<^verbatim>\<open>for\<close> loop of \<^verbatim>\<open>search\<close>, lines 142 to 155. The result \<open>Inr None\<close> is a
  \<^verbatim>\<open>return -1\<close> from inside the loop; \<open>Inr (Some (node_left, node_right))\<close> is the loop
  running to its end with these values of the two variables.
  Line 151 and 152 pass the character \<open>c\<close> as read, not \<open>toupper c\<close>, to \<^verbatim>\<open>rank\<close>.
\<close>

function search_loop ::
  "('r \<Rightarrow> int \<Rightarrow> char \<Rightarrow> int) \<Rightarrow> 'r SBWT \<Rightarrow> cptr \<Rightarrow> int \<Rightarrow> int \<Rightarrow> int
     \<Rightarrow> error + (int \<times> int) option" where
  "search_loop rank idx kmer i node_left node_right =
     (if i < get_k idx then
        (let c = (if is_colex idx then kmer i else kmer (get_k idx - 1 - i)) in
         (case (if toupper c = CHR ''A'' then Some 0
                else if toupper c = CHR ''C'' then Some 1
                else if toupper c = CHR ''G'' then Some 2
                else if toupper c = CHR ''T'' then Some 3
                else None) of
            None \<Rightarrow> Inr None
          | Some char_idx \<Rightarrow>
              (case at (get_C_array idx) char_idx of
                 None \<Rightarrow> Inl OutOfBounds
               | Some C_c \<Rightarrow>
                   (let node_left' = C_c + rank (get_subset_rank_structure idx) node_left c;
                        node_right' =
                          C_c + rank (get_subset_rank_structure idx) (node_right + 1) c - 1
                    in if node_left' > node_right' then Inr None
                       else search_loop rank idx kmer (i + 1) node_left' node_right'))))
      else Inr (Some (node_left, node_right)))"
  by pat_completeness auto
termination
  by (relation "measure (\<lambda>(rank, idx, kmer, i, l, r). nat (get_k idx - i))") auto

declare search_loop.simps [simp del]

definition search :: "('r \<Rightarrow> int \<Rightarrow> char \<Rightarrow> int) \<Rightarrow> 'r SBWT \<Rightarrow> cptr \<Rightarrow> error + int" where
  "search rank idx kmer =
     (case search_loop rank idx kmer 0 0 (number_of_subsets idx - 1) of
        Inl e \<Rightarrow> Inl e
      | Inr None \<Rightarrow> Inr (- 1)
      | Inr (Some (node_left, node_right)) \<Rightarrow>
          if node_left \<noteq> node_right then Inl CorruptIndex else Inr node_left)"

text \<open>
  \<^verbatim>\<open>search(const string&)\<close>, lines 133 to 136: an assertion on the length (as it behaves
  when assertions are compiled in), then the search on the characters.
\<close>

definition search_string :: "('r \<Rightarrow> int \<Rightarrow> char \<Rightarrow> int) \<Rightarrow> 'r SBWT \<Rightarrow> string \<Rightarrow> error + int" where
  "search_string rank idx kmer =
     (if int (length kmer) \<noteq> get_k idx then Inl AssertionFailed
      else search rank idx (c_str kmer))"

subsection \<open>\<^verbatim>\<open>SBWT::streaming_search\<close>\<close>

text \<open>
  Line 254, \<^verbatim>\<open>while(suffix_group_starts[column] == 0) column--;\<close>. The bit vector is read
  unchecked; a column outside it is the failure \<open>OutOfBounds\<close>.
\<close>

function walk_to_group_start :: "bit_vector \<Rightarrow> int \<Rightarrow> error + int" where
  "walk_to_group_start sg column =
     (case at sg column of
        None \<Rightarrow> Inl OutOfBounds
      | Some b \<Rightarrow> if b = False then walk_to_group_start sg (column - 1) else Inr column)"
  by pat_completeness auto
termination
  by (relation "measure (\<lambda>(sg, column). nat (column + 1))") (auto simp: at_def split: if_splits)

declare walk_to_group_start.simps [simp del]

text \<open>Line 244: where the first k-mer to search starts.\<close>

definition first_kmer_start :: "'r SBWT \<Rightarrow> cptr \<Rightarrow> int \<Rightarrow> cptr" where
  "first_kmer_start idx input len =
     (if is_colex idx then input else ptr_add input (len - get_k idx))"

text \<open>
  The body of the loop of lines 247 to 274, for the counter \<open>i\<close> and \<open>prev = ans.back()\<close>:
  every path through the body makes one \<^verbatim>\<open>push_back\<close>, and the result is the value pushed.
  \<^verbatim>\<open>char_idx = -1\<close>, with \<^verbatim>\<open>char\<close> a signed type, is \<open>None\<close>. Here the character handed to
  \<^verbatim>\<open>rank\<close> is the upper-case one.
\<close>

definition streaming_search_step ::
  "('r \<Rightarrow> int \<Rightarrow> char \<Rightarrow> int) \<Rightarrow> 'r SBWT \<Rightarrow> cptr \<Rightarrow> int \<Rightarrow> int \<Rightarrow> int \<Rightarrow> error + int" where
  "streaming_search_step rank idx input len i prev =
     (if prev = - 1 then
        search rank idx
          (ptr_add (first_kmer_start idx input len) (if is_colex idx then i else - i))
      else
        (case walk_to_group_start (get_streaming_support idx) prev of
           Inl e \<Rightarrow> Inl e
         | Inr column \<Rightarrow>
             (let c = toupper (input (if is_colex idx then i + get_k idx - 1
                                      else len - get_k idx - i)) in
              (case (if c = CHR ''A'' then Some 0
                     else if c = CHR ''C'' then Some 1
                     else if c = CHR ''G'' then Some 2
                     else if c = CHR ''T'' then Some 3
                     else None) of
                 None \<Rightarrow> Inr (- 1)
               | Some char_idx \<Rightarrow>
                   (case at (get_C_array idx) char_idx of
                      None \<Rightarrow> Inl OutOfBounds
                    | Some C_c \<Rightarrow>
                        (let node_left = C_c + rank (get_subset_rank_structure idx) column c;
                             node_right =
                               C_c + rank (get_subset_rank_structure idx) (column + 1) c - 1
                         in if node_left = node_right then Inr node_left else Inr (- 1)))))))"

text \<open>The loop itself: \<open>ans\<close> is the vector built so far, never empty when the loop starts.\<close>

function streaming_search_loop ::
  "('r \<Rightarrow> int \<Rightarrow> char \<Rightarrow> int) \<Rightarrow> 'r SBWT \<Rightarrow> cptr \<Rightarrow> int \<Rightarrow> int \<Rightarrow> int list
     \<Rightarrow> error + int list" where
  "streaming_search_loop rank idx input len i ans =
     (if i < len - get_k idx + 1 then
        (case streaming_search_step rank idx input len i (last ans) of
           Inl e \<Rightarrow> Inl e
         | Inr v \<Rightarrow> streaming_search_loop rank idx input len (i + 1) (ans @ [v]))
      else Inr ans)"
  by pat_completeness auto
termination
  by (relation "measure (\<lambda>(rank, idx, input, len, i, ans). nat (len - get_k idx + 1 - i))") auto

declare streaming_search_loop.simps [simp del]

text \<open>\<^verbatim>\<open>streaming_search(const char* input, int64_t len)\<close>, lines 236 to 277.\<close>

definition streaming_search ::
  "('r \<Rightarrow> int \<Rightarrow> char \<Rightarrow> int) \<Rightarrow> 'r SBWT \<Rightarrow> cptr \<Rightarrow> int \<Rightarrow> error + int list" where
  "streaming_search rank idx input len =
     (if length (get_streaming_support idx) = 0 then Inl StreamingUnsupported
      else if len < get_k idx then Inr []
      else
        (case search rank idx (first_kmer_start idx input len) of
           Inl e \<Rightarrow> Inl e
         | Inr first \<Rightarrow>
             (case streaming_search_loop rank idx input len 1 [first] of
                Inl e \<Rightarrow> Inl e
              | Inr ans \<Rightarrow> Inr (if \<not> is_colex idx then rev ans else ans))))"

text \<open>\<^verbatim>\<open>streaming_search(const string&)\<close>, lines 280 to 282.\<close>

definition streaming_search_string ::
  "('r \<Rightarrow> int \<Rightarrow> char \<Rightarrow> int) \<Rightarrow> 'r SBWT \<Rightarrow> string \<Rightarrow> error + int list" where
  "streaming_search_string rank idx input =
     streaming_search rank idx (c_str input) (int (length input))"

subsection \<open>The loop of \<^verbatim>\<open>search\<close>, character by character\<close>

text \<open>
  The \<^verbatim>\<open>if\<close> chain of lines 145 to 148, which finds \<^verbatim>\<open>char_idx\<close> from \<^verbatim>\<open>toupper(c)\<close>;
  \<open>None\<close> is the branch of line 149.
\<close>

definition char_to_idx :: "char \<Rightarrow> nat option" where
  "char_to_idx c =
     (if toupper c = CHR ''A'' then Some 0
      else if toupper c = CHR ''C'' then Some 1
      else if toupper c = CHR ''G'' then Some 2
      else if toupper c = CHR ''T'' then Some 3
      else None)"

text \<open>
  The characters that the loop of \<^verbatim>\<open>search\<close> still has to read when its counter is \<open>i\<close>,
  in the order in which it reads them.
\<close>

definition remaining :: "'r SBWT \<Rightarrow> cptr \<Rightarrow> int \<Rightarrow> char list" where
  "remaining idx kmer i =
     (if is_colex idx then map kmer [i .. get_k idx - 1]
      else map kmer (rev [0 .. get_k idx - 1 - i]))"

text \<open>
  The iterations of the loop of \<^verbatim>\<open>search\<close>, lines 143 to 154, as a recursion over the
  characters read, on an index whose C array has its four entries. As in lines 151 and 152,
  \<^verbatim>\<open>rank\<close> gets the character as it was read. \<open>None\<close> is a \<^verbatim>\<open>return -1\<close>.
\<close>

fun narrow_steps ::
  "('r \<Rightarrow> int \<Rightarrow> char \<Rightarrow> int) \<Rightarrow> 'r SBWT \<Rightarrow> char list \<Rightarrow> int \<times> int \<Rightarrow> (int \<times> int) option" where
  "narrow_steps rank idx [] (L, R) = Some (L, R)"
| "narrow_steps rank idx (c # cs) (L, R) =
     (case char_to_idx c of
        None \<Rightarrow> None
      | Some char_idx \<Rightarrow>
          (let L' = get_C_array idx ! char_idx + rank (get_subset_rank_structure idx) L c;
               R' = get_C_array idx ! char_idx + rank (get_subset_rank_structure idx) (R + 1) c - 1
           in if L' > R' then None else narrow_steps rank idx cs (L', R')))"

subsection \<open>The search algorithm as the specification words it\<close>

text \<open>
  Section 4.4 of the specification. The characters of the k-mer are taken in reading
  order: \<open>kmer[i]\<close> if colex, \<open>kmer[k - 1 - i]\<close> otherwise, for \<open>i = 0 .. k - 1\<close>.
\<close>

definition reading_order :: "'r SBWT \<Rightarrow> cptr \<Rightarrow> char list" where
  "reading_order idx kmer =
     (if is_colex idx then map kmer [0 .. get_k idx - 1]
      else map kmer (rev [0 .. get_k idx - 1]))"

text \<open>Step 2: the map from a character to \<open>char_idx\<close>, with \<open>A = 0, C = 1, G = 2, T = 3\<close>.\<close>

definition spec_char_idx :: "char \<Rightarrow> nat option" where
  "spec_char_idx c =
     (if c = CHR ''A'' then Some 0
      else if c = CHR ''C'' then Some 1
      else if c = CHR ''G'' then Some 2
      else if c = CHR ''T'' then Some 3
      else None)"

text \<open>
  Steps 1 to 5 for one character after the other, on the inclusive range \<open>[L, R]\<close>:
  \<open>c\<close> is the upper-case form of the character (step 1); a \<open>c\<close> that is none of
  A, C, G, T gives \<open>-1\<close>, here \<open>None\<close> (step 2); \<open>L\<close> becomes \<open>C[char_idx] + rank(L, c)\<close> and
  \<open>R\<close> becomes \<open>C[char_idx] + rank(R + 1, c) - 1\<close> (steps 3 and 4); \<open>L > R\<close> gives \<open>-1\<close>
  (step 5).
\<close>

fun narrow_spec ::
  "('r \<Rightarrow> int \<Rightarrow> char \<Rightarrow> int) \<Rightarrow> 'r SBWT \<Rightarrow> char list \<Rightarrow> int \<times> int \<Rightarrow> (int \<times> int) option" where
  "narrow_spec rank idx [] (L, R) = Some (L, R)"
| "narrow_spec rank idx (ch # cs) (L, R) =
     (let c = toupper ch in
      (case spec_char_idx c of
         None \<Rightarrow> None
       | Some char_idx \<Rightarrow>
           (let L' = get_C_array idx ! char_idx + rank (get_subset_rank_structure idx) L c;
                R' = get_C_array idx ! char_idx + rank (get_subset_rank_structure idx) (R + 1) c - 1
            in if L' > R' then None else narrow_spec rank idx cs (L', R'))))"

text \<open>
  The whole of section 4.4: the range starts as \<open>[0, N - 1]\<close>; after the \<open>k\<close> steps the common
  value of \<open>L\<close> and \<open>R\<close> is the result, and \<open>L \<noteq> R\<close> is the fatal \<open>CorruptIndex\<close>.
\<close>

definition search_spec :: "('r \<Rightarrow> int \<Rightarrow> char \<Rightarrow> int) \<Rightarrow> 'r SBWT \<Rightarrow> cptr \<Rightarrow> error + int" where
  "search_spec rank idx kmer =
     (case narrow_spec rank idx (reading_order idx kmer) (0, number_of_subsets idx - 1) of
        None \<Rightarrow> Inr (- 1)
      | Some (L, R) \<Rightarrow> if L = R then Inr L else Inl CorruptIndex)"

subsection \<open>Two concrete indexes\<close>

text \<open>
  The scenario of section 8 of the specification: \<open>k = 3\<close> and the k-mers
  AAA, AAC, ACG, CGT, GTA, TAA. In colex order the columns are
  \<^verbatim>\<open>$$$, AAA, TAA, GTA, AAC, ACG, CGT\<close>; the suffix groups are \<open>{0}, {1,2}, {3}, {4}, {5}, {6}\<close>,
  and the outgoing labels of a group are held by its first column:
  column 1 holds \<open>{A, C}\<close>, column 3 \<open>{A}\<close>, column 4 \<open>{G}\<close>, column 5 \<open>{T}\<close>, column 6 \<open>{A}\<close>.
\<close>

definition example_index :: "subset_matrix SBWT" where
  "example_index =
     SBWT_construct SubsetMatrix matrix_rank
       [False, True, False, True, False, False, True]
       [False, True, False, False, False, False, False]
       [False, False, False, False, True, False, False]
       [False, False, False, False, False, True, False]
       [True, True, False, True, True, True, True]
       3 6 True"

text \<open>
  The same k-mers indexed in lex order, that is, the reversed k-mers in colex order, searched
  right to left. The columns are the reversals of
  \<^verbatim>\<open>$$$, AAA, AAC, ACG, CGT, GTA, TAA\<close>; column 1 holds \<open>{A, T}\<close>, column 3 \<open>{A}\<close>,
  column 4 \<open>{A}\<close>, column 5 \<open>{C}\<close>, column 6 \<open>{G}\<close>.
\<close>

definition example_index_lex :: "subset_matrix SBWT" where
  "example_index_lex =
     SBWT_construct SubsetMatrix matrix_rank
       [False, True, False, True, True, False, False]
       [False, False, False, False, False, True, False]
       [False, False, False, False, False, False, True]
       [False, True, False, False, False, False, False]
       [True, True, False, True, True, True, True]
       3 6 False"

text \<open>
  Bit vectors that are no SBWT of any k-mer set: both columns hold \<open>A\<close>, so the one-character
  search for \<open>A\<close> ends on the range \<open>[1, 2]\<close>. The constructor accepts them as they are.
\<close>

definition broken_index :: "subset_matrix SBWT" where
  "broken_index =
     SBWT_construct SubsetMatrix matrix_rank
       [True, True] [False, False] [False, False] [False, False] [True, True] 1 1 True"

subsection \<open>The loop of \<^verbatim>\<open>streaming_search\<close> by window position\<close>

text \<open>
  The body of the loop, lines 248 to 272, told for the window that starts at position \<open>p\<close>
  of the input instead of for the counter \<open>i\<close> (the window of the counter \<open>i\<close> starts at \<open>i\<close> if
  colex and at \<open>len - k - i\<close> otherwise). The character read on line 256 is the last one of
  that window if colex and its first one otherwise.
\<close>

definition forward_character :: "'r SBWT \<Rightarrow> cptr \<Rightarrow> int \<Rightarrow> char" where
  "forward_character idx s p = (if is_colex idx then s (p + get_k idx - 1) else s p)"

text \<open>
  Lines 253 to 272: the walk to the start of the suffix group of the column \<open>prev\<close>, then
  one step with the upper-case form of the character \<open>ch\<close>.
\<close>

definition extend_column ::
  "('r \<Rightarrow> int \<Rightarrow> char \<Rightarrow> int) \<Rightarrow> 'r SBWT \<Rightarrow> int \<Rightarrow> char \<Rightarrow> error + int" where
  "extend_column rank idx prev ch =
     (case walk_to_group_start (get_streaming_support idx) prev of
        Inl e \<Rightarrow> Inl e
      | Inr column \<Rightarrow>
          (case char_to_idx ch of
             None \<Rightarrow> Inr (- 1)
           | Some char_idx \<Rightarrow>
               (case at (get_C_array idx) (int char_idx) of
                  None \<Rightarrow> Inl OutOfBounds
                | Some C_c \<Rightarrow>
                    (let L = C_c + rank (get_subset_rank_structure idx) column (toupper ch);
                         R = C_c + rank (get_subset_rank_structure idx) (column + 1) (toupper ch) - 1
                     in if L = R then Inr L else Inr (- 1)))))"



text \<open>The start position of the window that the loop handles when its counter is \<open>i\<close>.\<close>

definition window_of :: "'r SBWT \<Rightarrow> int \<Rightarrow> int \<Rightarrow> int" where
  "window_of idx len i = (if is_colex idx then i else len - get_k idx - i)"

subsection \<open>Serialization\<close>

text \<open>
  A stream is the list of the bytes written to it, or of the bytes still to be read from it.
  An \<^verbatim>\<open>int64_t\<close> is written as its eight bytes in memory, two's complement, lowest byte
  first. A read that finds fewer bytes than it asks for puts the stream into its failed state,
  which is \<open>None\<close>.
\<close>

type_synonym byte = "8 word"

definition int64_bytes :: "int \<Rightarrow> byte list" where
  "int64_bytes x = map (\<lambda>j. word_of_int (x div 2 ^ (8 * j))) [0..<8]"

definition int64_of_bytes :: "byte list \<Rightarrow> int" where
  "int64_of_bytes bs = sint (word_of_int (foldr (\<lambda>b acc. uint b + 256 * acc) bs 0) :: 64 word)"

definition read_bytes :: "nat \<Rightarrow> byte list \<Rightarrow> (byte list \<times> byte list) option" where
  "read_bytes n inp = (if length inp < n then None else Some (take n inp, drop n inp))"

definition read_int64 :: "byte list \<Rightarrow> (int \<times> byte list) option" where
  "read_int64 inp =
     (case read_bytes 8 inp of None \<Rightarrow> None | Some (bs, rest) \<Rightarrow> Some (int64_of_bytes bs, rest))"

text \<open>
  \<^verbatim>\<open>serialize_std_vector\<close> and \<^verbatim>\<open>load_std_vector\<close> at \<^verbatim>\<open>T = int64_t\<close>, lines 165 to 182.
  The first component of a serialization is the number of bytes it returns as written.
  A byte count that is negative or no multiple of eight fails the assertion or the allocation.
\<close>

fun read_int64s :: "nat \<Rightarrow> byte list \<Rightarrow> (int list \<times> byte list) option" where
  "read_int64s 0 inp = Some ([], inp)"
| "read_int64s (Suc n) inp =
     (case read_int64 inp of
        None \<Rightarrow> None
      | Some (x, rest) \<Rightarrow>
          (case read_int64s n rest of None \<Rightarrow> None | Some (xs, rest') \<Rightarrow> Some (x # xs, rest')))"

definition serialize_std_vector :: "int list \<Rightarrow> int \<times> byte list" where
  "serialize_std_vector v =
     (let n_bytes = 8 * int (length v)
      in (8 + n_bytes, int64_bytes n_bytes @ concat (map int64_bytes v)))"

definition load_std_vector :: "byte list \<Rightarrow> (int list \<times> byte list) option" where
  "load_std_vector inp =
     (case read_int64 inp of
        None \<Rightarrow> None
      | Some (n_bytes, rest) \<Rightarrow>
          if n_bytes < 0 \<or> n_bytes mod 8 \<noteq> 0 then None
          else read_int64s (nat (n_bytes div 8)) rest)"

text \<open>
  Modelled from the spec: the serialization of a bit vector by the succinct-bitvector
  library, which is not among the sources: a header with the length in bits, then the bits
  packed into 64-bit words, lowest bit first, the last word filled up with zeros.
\<close>

definition bit_vector_words :: "bit_vector \<Rightarrow> nat" where
  "bit_vector_words bv = (length bv + 63) div 64"

text \<open>Modelled from the spec: the packed words of a bit vector, as bytes.\<close>

definition bit_vector_bytes :: "bit_vector \<Rightarrow> byte list" where
  "bit_vector_bytes bv =
     map (\<lambda>j. horner_sum of_bool 2 (map (\<lambda>i. 8 * j + i < length bv \<and> bv ! (8 * j + i)) [0..<8]))
       [0..<8 * bit_vector_words bv]"

text \<open>Modelled from the spec: the header with the bit length, then the packed words.\<close>

definition bit_vector_serialize :: "bit_vector \<Rightarrow> int \<times> byte list" where
  "bit_vector_serialize bv =
     (8 + 8 * int (bit_vector_words bv), int64_bytes (int (length bv)) @ bit_vector_bytes bv)"

text \<open>Modelled from the spec: loading reads what the serialization wrote.\<close>

definition bit_vector_load :: "byte list \<Rightarrow> (bit_vector \<times> byte list) option" where
  "bit_vector_load inp =
     (case read_int64 inp of
        None \<Rightarrow> None
      | Some (n, rest) \<Rightarrow>
          if n < 0 then None
          else
            (case read_bytes (8 * ((nat n + 63) div 64)) rest of
               None \<Rightarrow> None
             | Some (bs, rest') \<Rightarrow>
                 Some (map (\<lambda>i. bit (bs ! (i div 8)) (i mod 8)) [0..<nat n], rest')))"

text \<open>
  Modelled from the spec: the payload of the subset-rank capability, opaque to the index.
  Here it is the four bit vectors one after the other; the rank tables are rebuilt from them.
\<close>

fun matrix_serialize :: "subset_matrix \<Rightarrow> int \<times> byte list" where
  "matrix_serialize (SubsetMatrix A_bits C_bits G_bits T_bits) =
     (fst (bit_vector_serialize A_bits) + fst (bit_vector_serialize C_bits)
        + fst (bit_vector_serialize G_bits) + fst (bit_vector_serialize T_bits),
      snd (bit_vector_serialize A_bits) @ snd (bit_vector_serialize C_bits)
        @ snd (bit_vector_serialize G_bits) @ snd (bit_vector_serialize T_bits))"

text \<open>Modelled from the spec: the load of the capability consumes what its serialize wrote.\<close>

definition matrix_load :: "byte list \<Rightarrow> (subset_matrix \<times> byte list) option" where
  "matrix_load inp =
     (case bit_vector_load inp of None \<Rightarrow> None | Some (A_bits, r1) \<Rightarrow>
      (case bit_vector_load r1 of None \<Rightarrow> None | Some (C_bits, r2) \<Rightarrow>
       (case bit_vector_load r2 of None \<Rightarrow> None | Some (G_bits, r3) \<Rightarrow>
        (case bit_vector_load r3 of None \<Rightarrow> None | Some (T_bits, r4) \<Rightarrow>
           Some (SubsetMatrix A_bits C_bits G_bits T_bits, r4)))))"

text \<open>
  \<^verbatim>\<open>SBWT::serialize(ostream&)\<close>, lines 185 to 207: the rank structure, the suffix-group marks,
  the C array, \<^verbatim>\<open>n_nodes\<close>, \<^verbatim>\<open>k\<close> and the colex flag, in this order. The field \<^verbatim>\<open>n_kmers\<close> is
  not written. \<open>rank_serialize\<close> is \<^verbatim>\<open>subset_rank_t::serialize\<close>.
\<close>

definition serialize :: "('r \<Rightarrow> int \<times> byte list) \<Rightarrow> 'r SBWT \<Rightarrow> int \<times> byte list" where
  "serialize rank_serialize idx =
     (let (w1, out1) = rank_serialize (get_subset_rank_structure idx);
          (w2, out2) = bit_vector_serialize (get_streaming_support idx);
          (w3, out3) = serialize_std_vector (get_C_array idx);
          out4 = int64_bytes (number_of_subsets idx);
          out5 = int64_bytes (get_k idx);
          flag = (if is_colex idx then 1 else 0 :: byte)
      in (w1 + w2 + w3 + 8 + 8 + 1, out1 @ out2 @ out3 @ out4 @ out5 @ [flag]))"

text \<open>
  \<^verbatim>\<open>SBWT::load(istream&)\<close>, lines 216 to 227, on the object \<open>this\<close>: the same fields are read
  in the same order and assigned; \<^verbatim>\<open>n_kmers\<close> is not assigned and keeps the value it has in
  \<open>this\<close>. \<open>rank_load\<close> is \<^verbatim>\<open>subset_rank_t::load\<close>. The result carries the rest of the stream.
\<close>

definition load ::
  "(byte list \<Rightarrow> ('r \<times> byte list) option) \<Rightarrow> 'r SBWT \<Rightarrow> byte list \<Rightarrow> ('r SBWT \<times> byte list) option" where
  "load rank_load this inp =
     (case rank_load inp of None \<Rightarrow> None | Some (subset_rank, r1) \<Rightarrow>
      (case bit_vector_load r1 of None \<Rightarrow> None | Some (suffix_group_starts, r2) \<Rightarrow>
       (case load_std_vector r2 of None \<Rightarrow> None | Some (C, r3) \<Rightarrow>
        (case read_int64 r3 of None \<Rightarrow> None | Some (n_nodes, r4) \<Rightarrow>
         (case read_int64 r4 of None \<Rightarrow> None | Some (k, r5) \<Rightarrow>
          (case read_bytes 1 r5 of None \<Rightarrow> None | Some (colex_flag, r6) \<Rightarrow>
             Some (this\<lparr>get_subset_rank_structure := subset_rank,
                        get_streaming_support := suffix_group_starts,
                        get_C_array := C,
                        number_of_subsets := n_nodes,
                        get_k := k,
                        is_colex := (hd colex_flag \<noteq> 0)\<rparr>, r6)))))))"

text \<open>The values an \<^verbatim>\<open>int64_t\<close> can hold.\<close>

definition fits_int64 :: "int \<Rightarrow> bool" where
  "fits_int64 x = (- (2 ^ 63) \<le> x \<and> x < 2 ^ 63)"

text \<open>
  A condition on an index under which the two queries never read outside a vector: the C
  array has its four entries, the marks cover the \<open>N\<close> columns and mark column 0, and one
  narrowing step from any position of \<open>[0, N]\<close> leads into \<open>[1, N]\<close>.
\<close>

definition columns_in_range :: "('r \<Rightarrow> int \<Rightarrow> char \<Rightarrow> int) \<Rightarrow> 'r SBWT \<Rightarrow> bool" where
  "columns_in_range rank idx =
     (length (get_C_array idx) = 4 \<and>
      get_streaming_support idx \<noteq> [] \<and> hd (get_streaming_support idx) \<and>
      number_of_subsets idx = int (length (get_streaming_support idx)) \<and>
      (\<forall>c n i. char_to_idx c = Some n \<and> 0 \<le> i \<and> i \<le> number_of_subsets idx \<longrightarrow>
         1 \<le> get_C_array idx ! n + rank (get_subset_rank_structure idx) i c \<and>
         get_C_array idx ! n + rank (get_subset_rank_structure idx) i c \<le> number_of_subsets idx))"

definition in_range :: "'r SBWT \<Rightarrow> int \<times> int \<Rightarrow> bool" where
  "in_range idx LR =
     (0 \<le> fst LR \<and> fst LR \<le> number_of_subsets idx \<and>
      - 1 \<le> snd LR \<and> snd LR \<le> number_of_subsets idx - 1)"

definition column_or_none :: "'r SBWT \<Rightarrow> int \<Rightarrow> bool" where
  "column_or_none idx v = (v = - 1 \<or> 0 \<le> v \<and> v < number_of_subsets idx)"

text \<open>Two indexes that agree on every field the two queries read.\<close>

definition same_query_fields :: "'r SBWT \<Rightarrow> 'r SBWT \<Rightarrow> bool" where
  "same_query_fields idx idx' =
     (is_colex idx' = is_colex idx \<and>
      get_subset_rank_structure idx' = get_subset_rank_structure idx \<and>
      get_streaming_support idx' = get_streaming_support idx \<and>
      get_C_array idx' = get_C_array idx \<and>
      number_of_subsets idx' = number_of_subsets idx \<and>
      get_k idx' = get_k idx)"

section \<open>The constructor\<close>

text \<open>
  Claim C9. The constructor from four bit vectors, the first of length \<open>N\<close>, builds the rank
  structure from them and sets the C array to exactly \<open>C[0] = 1\<close>,
  \<open>C[1] = C[0] + rank(N, A)\<close>, \<open>C[2] = C[1] + rank(N, C)\<close>, \<open>C[3] = C[2] + rank(N, G)\<close>.
\<close>

theorem C_array_of_constructor:
  "let idx = SBWT_construct build rank A_bits C_bits G_bits T_bits streaming_support k n_kmers colex;
       r = get_subset_rank_structure idx; N = number_of_subsets idx; C = get_C_array idx
   in r = build A_bits C_bits G_bits T_bits \<and> N = int (length A_bits) \<and> length C = 4 \<and>
      C ! 0 = 1 \<and>
      C ! 1 = C ! 0 + rank r N CHR ''A'' \<and>
      C ! 2 = C ! 1 + rank r N CHR ''C'' \<and>
      C ! 3 = C ! 2 + rank r N CHR ''G''"
  by (simp add: SBWT_construct_def Let_def)

section \<open>The C array and the bit vectors\<close>

lemma count_ones_nonneg: "0 \<le> count_ones b"
  by (simp add: count_ones_def)

lemma matrix_rank_total:
  "length (matrix_column m c) \<le> nat N \<Longrightarrow> matrix_rank m N c = count_ones (matrix_column m c)"
  by (simp add: matrix_rank_def)

text \<open>
  Claim C5, as amended. For the index that the constructor builds from four bit vectors of
  one length \<open>N\<close>: the C array is monotone non-decreasing, \<open>C[c+1] - C[c]\<close> is the number of
  1-bits of the vector of character \<open>c\<close> for \<open>c\<close> in \<open>{0, 1, 2}\<close>, and \<open>C[3]\<close> plus the number of
  1-bits of \<open>T_bits\<close> is one more than the number of 1-bits of all four vectors. That sum is
  \<open>N + 1\<close> only if the four vectors hold \<open>N\<close> 1-bits; the constructor does not look at this.
\<close>

theorem C_array_consistency:
  assumes "length C_bits = length A_bits" "length G_bits = length A_bits"
    "length T_bits = length A_bits"
  shows "let idx = SBWT_construct SubsetMatrix matrix_rank A_bits C_bits G_bits T_bits
                     streaming_support k n_kmers colex;
             C = get_C_array idx; N = number_of_subsets idx;
             total = count_ones A_bits + count_ones C_bits + count_ones G_bits + count_ones T_bits
         in C ! 0 \<le> C ! 1 \<and> C ! 1 \<le> C ! 2 \<and> C ! 2 \<le> C ! 3 \<and>
            C ! 1 - C ! 0 = count_ones A_bits \<and>
            C ! 2 - C ! 1 = count_ones C_bits \<and>
            C ! 3 - C ! 2 = count_ones G_bits \<and>
            matrix_rank (get_subset_rank_structure idx) N CHR ''T'' = count_ones T_bits \<and>
            C ! 3 + count_ones T_bits = 1 + total \<and>
            (C ! 3 + count_ones T_bits = N + 1) = (total = N)"
  using assms count_ones_nonneg[of A_bits] count_ones_nonneg[of C_bits] count_ones_nonneg[of G_bits]
  by (auto simp: SBWT_construct_def Let_def matrix_rank_total)

theorem C_array_consistency_witness:
  "get_C_array example_index = [1, 4, 5, 6] \<and> number_of_subsets example_index = 7 \<and>
   count_ones (matrix_column (get_subset_rank_structure example_index) CHR ''T'') = 1"
proof -
  have l: "length [False, True, False, False, False, False, False] =
           length [False, True, False, True, False, False, True]"
     "length [False, False, False, False, True, False, False] =
           length [False, True, False, True, False, False, True]"
     "length [False, False, False, False, False, True, False] =
           length [False, True, False, True, False, False, True]"
    by simp_all
  have c: "length (get_C_array example_index) = 4" by code_simp
  have n: "number_of_subsets example_index = 7" by code_simp
  have t: "count_ones (matrix_column (get_subset_rank_structure example_index) CHR ''T'') = 1"
    by code_simp
  have o: "count_ones [False, True, False, True, False, False, True] = 3"
     "count_ones [False, True, False, False, False, False, False] = 1"
     "count_ones [False, False, False, False, True, False, False] = 1"
     "count_ones [False, False, False, False, False, True, False] = 1"
    by code_simp+
  have e0: "get_C_array example_index ! 0 = 1" by code_simp
  from C_array_consistency[OF l, of "[True, True, False, True, True, True, True]" 3 6 True]
  have "get_C_array example_index ! 1 - get_C_array example_index ! 0 = 3 \<and>
        get_C_array example_index ! 2 - get_C_array example_index ! 1 = 1 \<and>
        get_C_array example_index ! 3 - get_C_array example_index ! 2 = 1"
    unfolding example_index_def[symmetric] Let_def o by blast
  then have "get_C_array example_index ! 0 = 1 \<and> get_C_array example_index ! 1 = 4 \<and>
      get_C_array example_index ! 2 = 5 \<and> get_C_array example_index ! 3 = 6"
    using e0 by simp
  then have "get_C_array example_index = [1, 4, 5, 6]"
    using c by (intro nth_equalityI) (auto simp: nth_Cons' less_Suc_eq numeral_eq_Suc)
  then show ?thesis using n t by simp
qed

text \<open>
  Claim C5 as stated fails on the index of the specification's own scenario, where every
  column but the root has one incoming label: \<open>C[3]\<close> plus the 1-bits of \<open>T_bits\<close> is
  \<open>N = 7\<close>, not \<open>N + 1 = 8\<close>.
\<close>

theorem C_array_sum_is_not_N_plus_1:
  "get_C_array example_index ! 3
     + count_ones (matrix_column (get_subset_rank_structure example_index) CHR ''T'') = 7 \<and>
   number_of_subsets example_index + 1 = 8 \<and>
   get_C_array example_index ! 3
     + count_ones (matrix_column (get_subset_rank_structure example_index) CHR ''T'')
     \<noteq> number_of_subsets example_index + 1"
  by code_simp

section \<open>Properties of \<^verbatim>\<open>search\<close>\<close>

subsection \<open>One iteration of the loop\<close>

lemma search_loop_unfold:
  "search_loop rank idx kmer i node_left node_right =
     (if i < get_k idx then
        (let c = (if is_colex idx then kmer i else kmer (get_k idx - 1 - i)) in
         (case char_to_idx c of
            None \<Rightarrow> Inr None
          | Some char_idx \<Rightarrow>
              (case at (get_C_array idx) (int char_idx) of
                 None \<Rightarrow> Inl OutOfBounds
               | Some C_c \<Rightarrow>
                   (let node_left' = C_c + rank (get_subset_rank_structure idx) node_left c;
                        node_right' =
                          C_c + rank (get_subset_rank_structure idx) (node_right + 1) c - 1
                    in if node_left' > node_right' then Inr None
                       else search_loop rank idx kmer (i + 1) node_left' node_right'))))
      else Inr (Some (node_left, node_right)))"
  by (subst search_loop.simps) (simp add: char_to_idx_def Let_def)

lemma char_to_idx_less: "char_to_idx c = Some n \<Longrightarrow> n < 4"
  by (auto simp: char_to_idx_def split: if_splits)

lemma at_C_array: "length v = 4 \<Longrightarrow> char_to_idx c = Some n \<Longrightarrow> at v (int n) = Some (v ! n)"
  using char_to_idx_less[of c n] by (simp add: at_def)

lemma remaining_done: "\<not> i < get_k idx \<Longrightarrow> 0 \<le> i \<Longrightarrow> remaining idx kmer i = []"
  by (simp add: remaining_def)

lemma remaining_step:
  assumes "i < get_k idx" "0 \<le> i"
  shows "remaining idx kmer i =
           (if is_colex idx then kmer i else kmer (get_k idx - 1 - i)) # remaining idx kmer (i + 1)"
proof (cases "is_colex idx")
  case True
  then show ?thesis using assms by (simp add: remaining_def upto_rec1[of i])
next
  case False
  have "[0 .. get_k idx - 1 - i] = [0 .. get_k idx - 1 - i - 1] @ [get_k idx - 1 - i]"
    using assms by (intro upto_rec2) simp
  moreover have "get_k idx - 1 - i - 1 = get_k idx - 1 - (i + 1)" by simp
  ultimately show ?thesis using False by (simp add: remaining_def)
qed

lemma remaining_0: "remaining idx kmer 0 = reading_order idx kmer"
  by (simp add: remaining_def reading_order_def)

subsection \<open>The loop as a recursion over the characters read\<close>

lemma search_loop_narrow:
  assumes "length (get_C_array idx) = 4" "0 \<le> i"
  shows "search_loop rank idx kmer i l r = Inr (narrow_steps rank idx (remaining idx kmer i) (l, r))"
  using assms(2)
proof (induction "nat (get_k idx - i)" arbitrary: i l r)
  case 0
  then have "\<not> i < get_k idx" by simp
  then show ?case using 0 by (simp add: search_loop_unfold[of _ _ _ i] remaining_done)
next
  case (Suc n)
  then have lt: "i < get_k idx" by linarith
  have IH: "\<And>l r. search_loop rank idx kmer (i + 1) l r =
              Inr (narrow_steps rank idx (remaining idx kmer (i + 1)) (l, r))"
    using Suc.hyps(1)[of "i + 1"] Suc.hyps(2) Suc.prems by simp
  show ?case
    using lt Suc.prems
    by (simp add: search_loop_unfold[of _ _ _ i] remaining_step IH Let_def at_C_array[OF assms(1)]
        split: option.splits)
qed

text \<open>
  On an index whose C array has its four entries, \<^verbatim>\<open>search\<close> is its own loop body applied
  to the \<open>k\<close> characters in reading order, from the range \<open>[0, N - 1]\<close>.
\<close>

lemma search_by_steps:
  assumes "length (get_C_array idx) = 4"
  shows "search rank idx kmer =
     (case narrow_steps rank idx (reading_order idx kmer) (0, number_of_subsets idx - 1) of
        None \<Rightarrow> Inr (- 1)
      | Some (L, R) \<Rightarrow> if L = R then Inr L else Inl CorruptIndex)"
  using search_loop_narrow[OF assms, of 0 rank kmer 0 "number_of_subsets idx - 1"]
  by (auto simp: search_def remaining_0 split: option.splits)

subsection \<open>The loop against section 4.4 of the specification\<close>

text \<open>
  The loop and section 4.4 differ in one place: the specification narrows the range with
  \<^verbatim>\<open>rank\<close> at the upper-case form of the character, the loop with \<^verbatim>\<open>rank\<close> at the character as
  read. Where \<^verbatim>\<open>rank\<close> gives the same count for both, as it does for every character that is
  not a lower-case letter, \<^verbatim>\<open>search\<close> is the algorithm of section 4.4.
\<close>

lemma spec_char_idx_toupper: "spec_char_idx (toupper c) = char_to_idx c"
  by (simp add: spec_char_idx_def char_to_idx_def)

lemma narrow_steps_is_spec:
  assumes "\<And>c i. c \<in> set cs \<Longrightarrow> rank (get_subset_rank_structure idx) i (toupper c)
                                  = rank (get_subset_rank_structure idx) i c"
  shows "narrow_steps rank idx cs LR = narrow_spec rank idx cs LR"
  using assms
proof (induction cs arbitrary: LR)
  case Nil
  show ?case by (cases LR) simp
next
  case (Cons c cs)
  obtain L R where LR: "LR = (L, R)" by (cases LR)
  have here: "\<And>i. rank (get_subset_rank_structure idx) i (toupper c)
                    = rank (get_subset_rank_structure idx) i c"
    using Cons.prems by simp
  have IH: "\<And>LR. narrow_steps rank idx cs LR = narrow_spec rank idx cs LR"
    using Cons.IH Cons.prems by simp
  show ?case
    unfolding LR
    by (simp add: spec_char_idx_toupper here IH Let_def cong: option.case_cong if_cong)
qed

lemma reading_order_chars:
  assumes "c \<in> set (reading_order idx S)"
  shows "\<exists>j. 0 \<le> j \<and> j < get_k idx \<and> c = S j"
  using assms by (auto simp: reading_order_def split: if_splits)

lemma search_is_spec_where_rank_ignores_case:
  assumes "length (get_C_array idx) = 4"
    and "\<And>j i. 0 \<le> j \<Longrightarrow> j < get_k idx \<Longrightarrow>
           rank (get_subset_rank_structure idx) i (toupper (S j))
             = rank (get_subset_rank_structure idx) i (S j)"
  shows "search rank idx S = search_spec rank idx S"
proof -
  have "narrow_steps rank idx (reading_order idx S) LR = narrow_spec rank idx (reading_order idx S) LR"
    for LR
    using assms(2) by (intro narrow_steps_is_spec) (auto dest!: reading_order_chars)
  then show ?thesis
    using search_loop_narrow[OF assms(1), of 0 rank S 0 "number_of_subsets idx - 1"]
    by (simp add: search_def search_spec_def remaining_0 split: option.splits)
qed

text \<open>
  Claim C3 fails on the code. Section 4.4 takes \<open>c = upper(kmer[i])\<close> and updates \<open>L\<close> to
  \<open>C[char_idx] + rank(L, c)\<close> and \<open>R\<close> to \<open>C[char_idx] + rank(R + 1, c) - 1\<close>; lines 151 and
  152 call \<^verbatim>\<open>rank\<close> with the character as read. On the index of the scenario and the k-mer
  \<open>aaa\<close> the algorithm of section 4.4 ends on the range \<open>[1, 1]\<close> and gives column 1, and
  \<^verbatim>\<open>search\<close> returns \<open>-1\<close>; on \<open>AAA\<close> both give column 1.
\<close>

theorem search_departs_from_spec_on_lower_case:
  "reading_order example_index (c_str ''aaa'') = ''aaa'' \<and>
   narrow_spec matrix_rank example_index ''aaa'' (0, number_of_subsets example_index - 1)
     = Some (1, 1) \<and>
   search_spec matrix_rank example_index (c_str ''aaa'') = Inr 1 \<and>
   search matrix_rank example_index (c_str ''aaa'') = Inr (- 1) \<and>
   search_spec matrix_rank example_index (c_str ''AAA'') = Inr 1 \<and>
   search matrix_rank example_index (c_str ''AAA'') = Inr 1"
  by code_simp

text \<open>
  Claim C8. When the loop of \<^verbatim>\<open>search\<close> runs through all \<open>k\<close> steps and ends with the range
  \<open>[L, R]\<close>, the call returns \<open>L\<close> if \<open>L = R\<close> and otherwise returns nothing: the process exits
  (\<open>CorruptIndex\<close>). Hence a non-negative value \<open>j\<close> returned by \<^verbatim>\<open>search\<close> is the common value
  of both ends of the range after the \<open>k\<close> steps.
\<close>

theorem search_returns_common_value:
  "(search_loop rank idx kmer 0 0 (number_of_subsets idx - 1) = Inr (Some (L, R)) \<longrightarrow>
      (if L = R then search rank idx kmer = Inr L else search rank idx kmer = Inl CorruptIndex)) \<and>
   (search rank idx kmer = Inr j \<and> 0 \<le> j \<longrightarrow>
      search_loop rank idx kmer 0 0 (number_of_subsets idx - 1) = Inr (Some (j, j)))"
  by (auto simp: search_def split: sum.splits option.splits if_splits)

theorem search_returns_common_value_witness:
  "search_loop matrix_rank example_index (c_str ''CGT'') 0 0 (number_of_subsets example_index - 1)
     = Inr (Some (6, 6)) \<and>
   search matrix_rank example_index (c_str ''CGT'') = Inr 6 \<and>
   search_loop matrix_rank broken_index (c_str ''A'') 0 0 (number_of_subsets broken_index - 1)
     = Inr (Some (1, 2)) \<and>
   search matrix_rank broken_index (c_str ''A'') = Inl CorruptIndex"
proof -
  have l1: "search_loop matrix_rank example_index (c_str ''CGT'') 0 0
              (number_of_subsets example_index - 1) = Inr (Some (6, 6))"
    by code_simp
  have l2: "search_loop matrix_rank broken_index (c_str ''A'') 0 0
              (number_of_subsets broken_index - 1) = Inr (Some (1, 2))"
    by code_simp
  have s1: "search matrix_rank example_index (c_str ''CGT'') = Inr 6"
    using search_returns_common_value[of matrix_rank example_index "c_str ''CGT''" 6 6 6]
    unfolding l1 by simp
  have s2: "search matrix_rank broken_index (c_str ''A'') = Inl CorruptIndex"
    using search_returns_common_value[of matrix_rank broken_index "c_str ''A''" 1 2 0]
    unfolding l2 by simp
  show ?thesis
    using l1 l2 s1 s2 by blast
qed

subsection \<open>Only the first \<open>k\<close> characters are read\<close>

lemma search_loop_cong_ptr:
  assumes "\<And>j. 0 \<le> j \<Longrightarrow> j < get_k idx \<Longrightarrow> S1 j = S2 j" and "0 \<le> i"
  shows "search_loop rank idx S1 i l r = search_loop rank idx S2 i l r"
  using assms
proof (induction "nat (get_k idx - i)" arbitrary: i l r)
  case 0
  then have "\<not> i < get_k idx" by simp
  then show ?case by (simp add: search_loop_unfold[of _ _ _ i])
next
  case (Suc n)
  then have lt: "i < get_k idx" by linarith
  have a: "S1 i = S2 i" using Suc.prems lt by simp
  have b: "S1 (get_k idx - 1 - i) = S2 (get_k idx - 1 - i)"
    using Suc.prems lt by simp
  have IH: "\<And>l r. search_loop rank idx S1 (i + 1) l r = search_loop rank idx S2 (i + 1) l r"
    using Suc.hyps(1)[of "i + 1"] Suc.hyps(2) Suc.prems by simp
  show ?case
    by (simp add: search_loop_unfold[of _ _ _ i] a b IH Let_def cong: option.case_cong if_cong)
qed

text \<open>
  Claim C10. The result of \<^verbatim>\<open>search\<close> on a character pointer depends on the characters at
  positions \<open>0\<close> to \<open>k - 1\<close> only: two inputs that agree there get the same result, whatever
  the orientation of the index and whatever the rank structure.
\<close>

theorem search_reads_first_k_only:
  assumes "\<forall>j. 0 \<le> j \<and> j < get_k idx \<longrightarrow> S1 j = S2 j"
  shows "search rank idx S1 = search rank idx S2"
  unfolding search_def using search_loop_cong_ptr[of idx S1 S2 0 rank 0] assms by simp

theorem search_reads_first_k_only_witness:
  "get_k example_index_lex = 3 \<and>
   map (c_str ''ACGA'') [0, 1, 2] = map (c_str ''ACGT'') [0, 1, 2] \<and>
   c_str ''ACGA'' 3 \<noteq> c_str ''ACGT'' 3 \<and>
   search matrix_rank example_index_lex (c_str ''ACGA'') = Inr 3 \<and>
   search matrix_rank example_index_lex (c_str ''ACGT'') = Inr 3"
proof -
  have k3: "get_k example_index_lex = 3" by code_simp
  have h: "\<forall>j. 0 \<le> j \<and> j < get_k example_index_lex \<longrightarrow> c_str ''ACGA'' j = c_str ''ACGT'' j"
  proof (intro allI impI)
    fix j :: int
    assume "0 \<le> j \<and> j < get_k example_index_lex"
    then have "j = 0 \<or> j = 1 \<or> j = 2" by (auto simp: k3)
    then show "c_str ''ACGA'' j = c_str ''ACGT'' j" by (auto simp: c_str_def)
  qed
  have s: "search matrix_rank example_index_lex (c_str ''ACGA'') = Inr 3" by code_simp
  show ?thesis
    using search_reads_first_k_only[OF h, of matrix_rank] s k3 by (simp add: c_str_def)
qed

section \<open>Properties of \<^verbatim>\<open>streaming_search\<close>\<close>

subsection \<open>How a call can fail\<close>

lemma search_loop_error: "search_loop rank idx kmer i l r = Inl e \<Longrightarrow> e = OutOfBounds"
proof (induction rank idx kmer i l r rule: search_loop.induct)
  case (1 rank idx kmer i node_left node_right)
  from "1.prems" show ?case
    apply (subst (asm) search_loop.simps)
    apply (simp only: Let_def split: if_splits option.splits)
    using "1.IH" apply (auto simp: Let_def)
    done
qed

lemma search_error: "search rank idx kmer = Inl e \<Longrightarrow> e = CorruptIndex \<or> e = OutOfBounds"
  by (auto simp: search_def split: sum.splits option.splits if_splits dest: search_loop_error)

lemma walk_error: "walk_to_group_start sg column = Inl e \<Longrightarrow> e = OutOfBounds"
proof (induction sg column rule: walk_to_group_start.induct)
  case (1 sg column)
  from "1.prems" show ?case
    apply (subst (asm) walk_to_group_start.simps)
    using "1.IH" by (auto split: option.splits if_splits)
qed

lemma ptr_add_0: "ptr_add S 0 = S"
  by (simp add: ptr_add_def)

lemma ptr_add_add: "ptr_add (ptr_add S a) b = ptr_add S (a + b)"
  by (simp add: ptr_add_def add.assoc)


lemma step_by_position:
  "streaming_search_step rank idx s len i prev =
     (if prev = - 1 then search rank idx (ptr_add s (window_of idx len i))
      else extend_column rank idx prev (forward_character idx s (window_of idx len i)))"
proof (cases "is_colex idx")
  case True
  then show ?thesis
    by (simp add: streaming_search_step_def extend_column_def forward_character_def window_of_def
        first_kmer_start_def char_to_idx_def Let_def split: sum.splits)
next
  case False
  have "ptr_add (ptr_add s (len - get_k idx)) (- i) = ptr_add s (len - get_k idx - i)"
    by (simp add: ptr_add_add)
  with False show ?thesis
    by (simp add: streaming_search_step_def extend_column_def forward_character_def window_of_def
        first_kmer_start_def char_to_idx_def Let_def split: sum.splits)
qed


lemma extend_error: "extend_column rank idx prev ch = Inl e \<Longrightarrow> e = OutOfBounds"
  unfolding extend_column_def Let_def
  by (auto split: sum.splits option.splits if_splits dest: walk_error)

lemma step_error:
  "streaming_search_step rank idx s len i prev = Inl e \<Longrightarrow> e = CorruptIndex \<or> e = OutOfBounds"
  unfolding step_by_position
  by (cases "prev = - 1") (auto dest: search_error extend_error)

lemma loop_error:
  "streaming_search_loop rank idx s len i ans = Inl e \<Longrightarrow> e = CorruptIndex \<or> e = OutOfBounds"
proof (induction rank idx s len i ans rule: streaming_search_loop.induct)
  case (1 rank idx input len i ans)
  show ?case
  proof (cases "i < len - get_k idx + 1")
    case False
    then show ?thesis using "1.prems" by (subst (asm) streaming_search_loop.simps) simp
  next
    case True
    show ?thesis
    proof (cases "streaming_search_step rank idx input len i (last ans)")
      case (Inl e')
      then have "e' = e" using "1.prems" True by (subst (asm) streaming_search_loop.simps) simp
      then show ?thesis using step_error[OF Inl] by simp
    next
      case (Inr v)
      then have "streaming_search_loop rank idx input len (i + 1) (ans @ [v]) = Inl e"
        using "1.prems" True by (subst (asm) streaming_search_loop.simps) simp
      then show ?thesis using "1.IH"[OF True Inr] by simp
    qed
  qed
qed

lemma streaming_search_error:
  assumes "streaming_search rank idx s len = Inl e"
  shows "e = StreamingUnsupported \<and> \<not> has_streaming_query_support idx \<or>
     (e = CorruptIndex \<or> e = OutOfBounds) \<and> has_streaming_query_support idx"
proof (cases "length (get_streaming_support idx) = 0")
  case True
  then show ?thesis using assms
    by (simp add: streaming_search_def has_streaming_query_support_def)
next
  case False
  then have sup: "has_streaming_query_support idx"
    by (simp add: has_streaming_query_support_def)
  have "e = CorruptIndex \<or> e = OutOfBounds"
  proof (cases "search rank idx (first_kmer_start idx s len)")
    case (Inl e')
    then have "e' = e" using assms False
      by (simp add: streaming_search_def split: if_splits)
    then show ?thesis using search_error[OF Inl] by simp
  next
    case (Inr first)
    then have "streaming_search_loop rank idx s len 1 [first] = Inl e"
      using assms False by (simp add: streaming_search_def split: if_splits sum.splits)
    then show ?thesis by (rule loop_error)
  qed
  then show ?thesis using sup by simp
qed

text \<open>
  Claim C7. \<^verbatim>\<open>streaming_search\<close>, in both of its overloads, ends with the exception
  \<open>StreamingUnsupported\<close> exactly when the index has no suffix-group marks
  (\<^verbatim>\<open>has_streaming_query_support()\<close> is false): then it does so on every input, and with
  marks present it never does.
\<close>

theorem streaming_unsupported_iff:
  "(streaming_search rank idx s len = Inl StreamingUnsupported) = (\<not> has_streaming_query_support idx) \<and>
   (streaming_search_string rank idx input = Inl StreamingUnsupported)
     = (\<not> has_streaming_query_support idx)"
proof -
  have "(streaming_search rank idx s len = Inl StreamingUnsupported)
          = (\<not> has_streaming_query_support idx)" for s len
  proof
    assume "streaming_search rank idx s len = Inl StreamingUnsupported"
    from streaming_search_error[OF this] show "\<not> has_streaming_query_support idx" by simp
  next
    assume "\<not> has_streaming_query_support idx"
    then show "streaming_search rank idx s len = Inl StreamingUnsupported"
      by (simp add: streaming_search_def has_streaming_query_support_def)
  qed
  then show ?thesis by (simp add: streaming_search_string_def)
qed

theorem streaming_unsupported_iff_witness:
  "\<not> has_streaming_query_support (SBWT_default (SubsetMatrix [] [] [] [])) \<and>
   streaming_search matrix_rank (SBWT_default (SubsetMatrix [] [] [] [])) (c_str ''ACGT'') 4
     = Inl StreamingUnsupported \<and>
   has_streaming_query_support example_index \<and>
   streaming_search matrix_rank example_index (c_str ''ACGT'') 4 \<noteq> Inl StreamingUnsupported"
proof -
  have a: "\<not> has_streaming_query_support (SBWT_default (SubsetMatrix [] [] [] []))"
    and b: "has_streaming_query_support example_index"
    by code_simp+
  show ?thesis
    using a b
      streaming_unsupported_iff[of matrix_rank "SBWT_default (SubsetMatrix [] [] [] [])"
        "c_str ''ACGT''" 4 "''ACGT''"]
      streaming_unsupported_iff[of matrix_rank example_index "c_str ''ACGT''" 4 "''ACGT''"]
    by simp
qed

subsection \<open>The entries of the result, by window position\<close>









subsection \<open>When the call returns\<close>

lemma toupper_upper:
  "toupper CHR ''A'' = CHR ''A''" "toupper CHR ''C'' = CHR ''C''"
  "toupper CHR ''G'' = CHR ''G''" "toupper CHR ''T'' = CHR ''T''"
  by (simp_all add: toupper_def)

lemma toupper_other:
  "\<not> ((97::nat) \<le> of_char c \<and> of_char c \<le> (122::nat)) \<Longrightarrow> toupper c = c"
  by (auto simp: toupper_def)

lemma toupper_idem: "toupper (toupper c) = toupper c"
proof (cases "(97::nat) \<le> of_char c \<and> of_char c \<le> (122::nat)")
  case False
  then have "toupper c = c" by (rule toupper_other)
  then show ?thesis by simp
next
  case True
  define u where "u = char_of (of_char c - (32::nat))"
  have "(of_char c :: nat) - 32 < 256" using True by linarith
  then have "of_char u = (of_char c - (32::nat))"
    by (simp add: u_def)
  then have "\<not> ((97::nat) \<le> of_char u \<and> of_char u \<le> (122::nat))"
    using True by arith
  then have "toupper u = u" by (rule toupper_other)
  moreover have "toupper c = u" using True by (simp add: toupper_def u_def)
  ultimately show ?thesis by simp
qed

lemma char_to_idx_toupper: "char_to_idx (toupper c) = char_to_idx c"
  by (simp add: char_to_idx_def toupper_idem)

lemma narrow_steps_in_range:
  assumes "columns_in_range rank idx"
  shows "narrow_steps rank idx cs LR = Some LR' \<Longrightarrow> in_range idx LR \<Longrightarrow> in_range idx LR'"
proof (induction cs arbitrary: LR)
  case Nil
  then show ?case by (cases LR) simp
next
  case (Cons c cs)
  obtain L R where LR: "LR = (L, R)" by (cases LR)
  from Cons.prems(1) obtain n where n: "char_to_idx c = Some n"
    by (auto simp: LR split: option.splits)
  define L' where "L' = get_C_array idx ! n + rank (get_subset_rank_structure idx) L c"
  define R' where "R' = get_C_array idx ! n + rank (get_subset_rank_structure idx) (R + 1) c - 1"
  have rec: "narrow_steps rank idx cs (L', R') = Some LR'"
    using Cons.prems(1) n by (simp add: LR L'_def R'_def Let_def split: if_splits)
  have b: "0 \<le> L" "L \<le> number_of_subsets idx" "0 \<le> R + 1" "R + 1 \<le> number_of_subsets idx"
    using Cons.prems(2) by (simp_all add: in_range_def LR)
  have step: "\<And>i. 0 \<le> i \<Longrightarrow> i \<le> number_of_subsets idx \<Longrightarrow>
      1 \<le> get_C_array idx ! n + rank (get_subset_rank_structure idx) i c \<and>
      get_C_array idx ! n + rank (get_subset_rank_structure idx) i c \<le> number_of_subsets idx"
    using assms n unfolding columns_in_range_def by blast
  have "in_range idx (L', R')"
    using step[OF b(1,2)] step[OF b(3,4)] by (simp add: in_range_def L'_def R'_def)
  from Cons.IH[OF rec this] show ?case .
qed


lemma search_never_out_of_bounds:
  assumes "length (get_C_array idx) = 4"
  shows "search rank idx S \<noteq> Inl OutOfBounds"
  using search_loop_narrow[OF assms, of 0 rank S 0 "number_of_subsets idx - 1"]
  by (auto simp: search_def split: option.splits)

lemma search_value_in_range:
  assumes "columns_in_range rank idx" "search rank idx S = Inr j"
  shows "column_or_none idx j"
proof -
  have len: "length (get_C_array idx) = 4" and N: "1 \<le> number_of_subsets idx"
    using assms(1) by (auto simp: columns_in_range_def Suc_le_eq)
  have start: "in_range idx (0, number_of_subsets idx - 1)"
    using N by (simp add: in_range_def)
  show ?thesis
  proof (cases "narrow_steps rank idx (remaining idx S 0) (0, number_of_subsets idx - 1)")
    case None
    then show ?thesis
      using assms(2) search_loop_narrow[OF len, of 0 rank S 0 "number_of_subsets idx - 1"]
      by (simp add: search_def column_or_none_def)
  next
    case (Some LR)
    obtain L R where LR: "LR = (L, R)" by (cases LR)
    have "in_range idx (L, R)"
      using narrow_steps_in_range[OF assms(1) Some start] LR by simp
    moreover have "L = R \<and> j = L"
      using assms(2) search_loop_narrow[OF len, of 0 rank S 0 "number_of_subsets idx - 1"] Some LR
      by (simp add: search_def split: if_splits)
    ultimately show ?thesis by (auto simp: in_range_def column_or_none_def)
  qed
qed

lemma walk_succeeds:
  assumes "sg \<noteq> []" "hd sg"
  shows "0 \<le> column \<Longrightarrow> column < int (length sg) \<Longrightarrow>
         \<exists>g. walk_to_group_start sg column = Inr g \<and> 0 \<le> g \<and> g \<le> column"
proof (induction "nat column" arbitrary: column)
  case 0
  then have c0: "column = 0" by simp
  have "at sg 0 = Some True" using assms by (cases sg) (simp_all add: at_def)
  then show ?case unfolding c0 by (subst walk_to_group_start.simps) simp
next
  case (Suc n)
  then have at: "at sg column = Some (sg ! nat column)" by (simp add: at_def)
  show ?case
  proof (cases "sg ! nat column")
    case True
    then show ?thesis using at Suc.prems by (subst walk_to_group_start.simps) simp
  next
    case False
    have "n = nat (column - 1)" "0 \<le> column - 1" "column - 1 < int (length sg)"
      using Suc.hyps(2) Suc.prems by linarith+
    from Suc.hyps(1)[OF this] obtain g where
      "walk_to_group_start sg (column - 1) = Inr g" "0 \<le> g" "g \<le> column - 1" by blast
    then show ?thesis using at False by (subst walk_to_group_start.simps) simp
  qed
qed

lemma extend_value_in_range:
  assumes "columns_in_range rank idx" "0 \<le> prev" "prev < number_of_subsets idx"
  shows "\<exists>v. extend_column rank idx prev ch = Inr v \<and> column_or_none idx v"
proof -
  have len: "length (get_C_array idx) = 4"
    and sg: "get_streaming_support idx \<noteq> []" "hd (get_streaming_support idx)"
    and N: "number_of_subsets idx = int (length (get_streaming_support idx))"
    using assms(1) by (auto simp: columns_in_range_def)
  from walk_succeeds[OF sg, of prev] assms(2,3) N obtain g where
    g: "walk_to_group_start (get_streaming_support idx) prev = Inr g" "0 \<le> g" "g \<le> prev"
    by auto
  show ?thesis
  proof (cases "char_to_idx ch")
    case None
    then show ?thesis using g by (simp add: extend_column_def column_or_none_def)
  next
    case (Some n)
    have n': "char_to_idx (toupper ch) = Some n" using Some by (simp add: char_to_idx_toupper)
    have step: "\<And>i. 0 \<le> i \<Longrightarrow> i \<le> number_of_subsets idx \<Longrightarrow>
      1 \<le> get_C_array idx ! n + rank (get_subset_rank_structure idx) i (toupper ch) \<and>
      get_C_array idx ! n + rank (get_subset_rank_structure idx) i (toupper ch)
        \<le> number_of_subsets idx"
      using assms(1) n' unfolding columns_in_range_def by blast
    have b: "0 \<le> g" "g \<le> number_of_subsets idx" "0 \<le> g + 1" "g + 1 \<le> number_of_subsets idx"
      using g assms(3) by simp_all
    show ?thesis
      using g(1) step[OF b(1,2)] step[OF b(3,4)] Some
      by (simp add: extend_column_def at_C_array[OF len Some] Let_def column_or_none_def)
  qed
qed

lemma step_value_in_range:
  assumes "columns_in_range rank idx" "column_or_none idx prev"
    and "search rank idx (ptr_add s (window_of idx len i)) \<noteq> Inl CorruptIndex"
  shows "\<exists>v. streaming_search_step rank idx s len i prev = Inr v \<and> column_or_none idx v"
proof (cases "prev = - 1")
  case True
  have len: "length (get_C_array idx) = 4" using assms(1) by (simp add: columns_in_range_def)
  obtain j where j: "search rank idx (ptr_add s (window_of idx len i)) = Inr j"
    using assms(3) search_never_out_of_bounds[OF len, of rank "ptr_add s (window_of idx len i)"]
      search_error[of rank idx "ptr_add s (window_of idx len i)"]
    by (cases "search rank idx (ptr_add s (window_of idx len i))") auto
  then show ?thesis
    using True search_value_in_range[OF assms(1) j] by (simp add: step_by_position)
next
  case False
  then have "0 \<le> prev" "prev < number_of_subsets idx"
    using assms(2) by (auto simp: column_or_none_def)
  from extend_value_in_range[OF assms(1) this] show ?thesis
    using False by (simp add: step_by_position)
qed

lemma loop_returns:
  "columns_in_range rank idx \<Longrightarrow> column_or_none idx (last ans) \<Longrightarrow> 0 \<le> i \<Longrightarrow>
   (\<And>p. 0 \<le> p \<Longrightarrow> p \<le> len - get_k idx \<Longrightarrow>
      search rank idx (ptr_add s p) \<noteq> Inl CorruptIndex) \<Longrightarrow>
   \<exists>res. streaming_search_loop rank idx s len i ans = Inr res"
proof (induction rank idx s len i ans rule: streaming_search_loop.induct)
  case (1 rank idx input len i ans)
  show ?case
  proof (cases "i < len - get_k idx + 1")
    case False
    then show ?thesis by (subst streaming_search_loop.simps) simp
  next
    case True
    have w: "0 \<le> window_of idx len i" "window_of idx len i \<le> len - get_k idx"
      using True "1.prems"(3) by (auto simp: window_of_def)
    from step_value_in_range[OF "1.prems"(1,2) "1.prems"(4)[OF w]] obtain v where
      v: "streaming_search_step rank idx input len i (last ans) = Inr v" "column_or_none idx v"
      by blast
    have "\<exists>res. streaming_search_loop rank idx input len (i + 1) (ans @ [v]) = Inr res"
      using "1.IH"[OF True v(1) "1.prems"(1)] v(2) "1.prems"(3,4) by simp
    then show ?thesis using True v(1) by (subst streaming_search_loop.simps) simp
  qed
qed

lemma streaming_search_returns:
  assumes "columns_in_range rank idx" "get_k idx \<le> len"
    and "\<And>p. 0 \<le> p \<Longrightarrow> p \<le> len - get_k idx \<Longrightarrow>
           search rank idx (ptr_add s p) \<noteq> Inl CorruptIndex"
  shows "\<exists>ans. streaming_search rank idx s len = Inr ans"
proof -
  have len: "length (get_C_array idx) = 4" and sg: "get_streaming_support idx \<noteq> []"
    using assms(1) by (auto simp: columns_in_range_def)
  have f: "first_kmer_start idx s len = ptr_add s (window_of idx len 0)"
    by (simp add: first_kmer_start_def window_of_def ptr_add_0)
  have w: "0 \<le> window_of idx len 0" "window_of idx len 0 \<le> len - get_k idx"
    using assms(2) by (auto simp: window_of_def)
  obtain j where j: "search rank idx (first_kmer_start idx s len) = Inr j"
    using assms(3)[OF w] search_never_out_of_bounds[OF len, of rank "first_kmer_start idx s len"]
      search_error[of rank idx "first_kmer_start idx s len"]
    unfolding f by (cases "search rank idx (ptr_add s (window_of idx len 0))") auto
  have "column_or_none idx (last [j])"
    using search_value_in_range[OF assms(1) j] by simp
  from loop_returns[OF assms(1) this _ assms(3), of 1] obtain res where
    "streaming_search_loop rank idx s len 1 [j] = Inr res" by auto
  then show ?thesis using j sg assms(2) by (simp add: streaming_search_def)
qed

lemma count_ones_take_le: "count_ones (take n b) \<le> count_ones b"
proof -
  have "filter (\<lambda>x. x) b = filter (\<lambda>x. x) (take n b) @ filter (\<lambda>x. x) (drop n b)"
    by (metis append_take_drop_id filter_append)
  then have "length (filter (\<lambda>x. x) (take n b)) \<le> length (filter (\<lambda>x. x) b)"
    by simp
  then show ?thesis by (simp add: count_ones_def)
qed

lemma matrix_rank_bounds:
  "0 \<le> matrix_rank m i c" "matrix_rank m i c \<le> count_ones (matrix_column m c)"
  by (simp_all add: matrix_rank_def count_ones_nonneg count_ones_take_le)

lemma char_to_idx_upper:
  "char_to_idx CHR ''A'' = Some 0" "char_to_idx CHR ''C'' = Some 1"
  "char_to_idx CHR ''G'' = Some 2" "char_to_idx CHR ''T'' = Some 3"
  by (simp_all add: char_to_idx_def toupper_upper)

lemma constructed_C_array:
  assumes "length C_bits = length A_bits" "length G_bits = length A_bits"
  shows "get_C_array (SBWT_construct SubsetMatrix matrix_rank A_bits C_bits G_bits T_bits
                        streaming_support k n_kmers colex)
         = [1, 1 + count_ones A_bits, 1 + count_ones A_bits + count_ones C_bits,
            1 + count_ones A_bits + count_ones C_bits + count_ones G_bits]"
  using assms by (simp add: SBWT_construct_def Let_def matrix_rank_total numeral_eq_Suc)

lemma constructed_columns_in_range:
  assumes len: "length C_bits = length A_bits" "length G_bits = length A_bits"
      "length T_bits = length A_bits"
    and sg: "length sg = length A_bits" "sg \<noteq> []" "hd sg"
    and total: "count_ones A_bits + count_ones C_bits + count_ones G_bits + count_ones T_bits
                  < int (length A_bits)"
  shows "columns_in_range matrix_rank
           (SBWT_construct SubsetMatrix matrix_rank A_bits C_bits G_bits T_bits sg k n_kmers colex)"
proof -
  define idx where
    "idx = SBWT_construct SubsetMatrix matrix_rank A_bits C_bits G_bits T_bits sg k n_kmers colex"
  define m where "m = SubsetMatrix A_bits C_bits G_bits T_bits"
  have C: "get_C_array idx = [1, 1 + count_ones A_bits, 1 + count_ones A_bits + count_ones C_bits,
            1 + count_ones A_bits + count_ones C_bits + count_ones G_bits]"
    unfolding idx_def by (rule constructed_C_array[OF len(1,2)])
  have fields: "get_subset_rank_structure idx = m" "get_streaming_support idx = sg"
    "number_of_subsets idx = int (length A_bits)"
    by (simp_all add: idx_def m_def SBWT_construct_def Let_def)
  note nn = count_ones_nonneg[of A_bits] count_ones_nonneg[of C_bits]
    count_ones_nonneg[of G_bits] count_ones_nonneg[of T_bits]
  have step: "1 \<le> get_C_array idx ! n + matrix_rank m i c \<and>
              get_C_array idx ! n + matrix_rank m i c \<le> int (length A_bits)"
    if n: "char_to_idx c = Some n" for c n i
  proof -
    note rb = matrix_rank_bounds[of m i c]
    consider "c = CHR ''A''" | "c = CHR ''C''" | "c = CHR ''G''" | "c = CHR ''T''"
      | "c \<noteq> CHR ''A''" "c \<noteq> CHR ''C''" "c \<noteq> CHR ''G''" "c \<noteq> CHR ''T''"
      by blast
    then show ?thesis
    proof cases
      case 1
      then show ?thesis using n rb nn total by (simp add: char_to_idx_upper C m_def)
    next
      case 2
      then show ?thesis using n rb nn total by (simp add: char_to_idx_upper C m_def)
    next
      case 3
      then show ?thesis using n rb nn total by (simp add: char_to_idx_upper C m_def)
    next
      case 4
      then show ?thesis using n rb nn total by (simp add: char_to_idx_upper C m_def)
    next
      case 5
      then have z: "matrix_rank m i c = 0" by (simp add: matrix_rank_def m_def count_ones_def)
      have "n < 4" using n by (rule char_to_idx_less)
      then consider "n = 0" | "n = 1" | "n = 2" | "n = 3" by linarith
      then show ?thesis using nn total by cases (simp_all add: C z)
    qed
  qed
  show ?thesis
    unfolding idx_def[symmetric] columns_in_range_def fields
    using C sg step by simp
qed

lemma example_columns_in_range:
  "columns_in_range matrix_rank example_index" "columns_in_range matrix_rank example_index_lex"
  unfolding example_index_def example_index_lex_def
  by (rule constructed_columns_in_range; simp add: count_ones_def)+




section \<open>Lower-case input\<close>

text \<open>
  With a rank structure that does not tell a lower-case letter from its upper-case form,
  \<^verbatim>\<open>search\<close> does not either: what stands between the code and case-insensitive search is
  only the character that lines 151 and 152 hand to \<^verbatim>\<open>rank\<close>.
\<close>

lemma search_loop_toupper:
  assumes "\<And>i c. rank (get_subset_rank_structure idx) i (toupper c)
                    = rank (get_subset_rank_structure idx) i c"
  shows "search_loop rank idx (\<lambda>j. toupper (S j)) i l r = search_loop rank idx S i l r"
proof (induction "nat (get_k idx - i)" arbitrary: i l r)
  case 0
  then have "\<not> i < get_k idx" by simp
  then show ?case by (simp add: search_loop_unfold[of _ _ _ i])
next
  case (Suc n)
  have IH: "\<And>l r. search_loop rank idx (\<lambda>j. toupper (S j)) (i + 1) l r
                   = search_loop rank idx S (i + 1) l r"
    using Suc.hyps(1)[of "i + 1"] Suc.hyps(2) by simp
  show ?case
    by (simp add: search_loop_unfold[of _ _ _ i] char_to_idx_toupper assms IH Let_def
        cong: option.case_cong if_cong)
qed

lemma search_case_insensitive_if_rank_is:
  assumes "\<And>i c. rank (get_subset_rank_structure idx) i (toupper c)
                    = rank (get_subset_rank_structure idx) i c"
  shows "search rank idx (\<lambda>j. toupper (S j)) = search rank idx S"
  using assms by (simp add: search_def search_loop_toupper)


text \<open>
  Claim C4 fails on the code. \<^verbatim>\<open>search\<close> folds the case of a character to find its index
  into the C array, but hands the character as read to \<^verbatim>\<open>rank\<close> (lines 151 and 152), which
  counts nothing for a lower-case letter: on the index of the scenario the k-mer \<open>aaa\<close> is
  not found, and its upper-case form \<open>AAA\<close> is found at column 1.
\<close>

theorem search_is_case_sensitive:
  "map toupper ''aaa'' = ''AAA'' \<and>
   search matrix_rank example_index (c_str ''aaa'') = Inr (- 1) \<and>
   search matrix_rank example_index (c_str ''AAA'') = Inr 1 \<and>
   search_string matrix_rank example_index ''aaa'' = Inr (- 1) \<and>
   search_string matrix_rank example_index (map toupper ''aaa'') = Inr 1"
  by code_simp

text \<open>
  Claim C1 fails on the code, by the same lines 151 and 152. \<^verbatim>\<open>streaming_search\<close> folds the
  case of the forward character before it calls \<^verbatim>\<open>rank\<close> (line 256), \<^verbatim>\<open>search\<close> does not.
  On the colex index of the scenario and the input \<open>AACg\<close> the entry of window 1 is column
  5, and \<^verbatim>\<open>search\<close> of that window is \<open>-1\<close>; on the lex index and the input \<open>aACG\<close> the
  entry of window 0 is column 2, and \<^verbatim>\<open>search\<close> of that window is \<open>-1\<close>.
\<close>

theorem streaming_differs_from_search:
  "streaming_search_string matrix_rank example_index ''AACg'' = Inr [4, 5] \<and>
   search matrix_rank example_index (ptr_add (c_str ''AACg'') 0) = Inr 4 \<and>
   search matrix_rank example_index (ptr_add (c_str ''AACg'') 1) = Inr (- 1) \<and>
   streaming_search_string matrix_rank example_index_lex ''aACG'' = Inr [2, 3] \<and>
   search matrix_rank example_index_lex (ptr_add (c_str ''aACG'') 0) = Inr (- 1) \<and>
   search matrix_rank example_index_lex (ptr_add (c_str ''aACG'') 1) = Inr 3"
  by code_simp

section \<open>Serialization and loading\<close>

subsection \<open>What is written is read back\<close>

lemma bytes_value:
  "foldr (\<lambda>b acc. uint b + 256 * acc) (map (\<lambda>j. word_of_int (x div 2 ^ (8 * j)) :: byte) [m..<m + n]) 0
     = (x div 2 ^ (8 * m)) mod 2 ^ (8 * n)"
proof (induction n arbitrary: m)
  case 0
  then show ?case by simp
next
  case (Suc n)
  define y where "y = x div 2 ^ (8 * m)"
  define rest where
    "rest = foldr (\<lambda>b acc. uint b + 256 * acc)
              (map (\<lambda>j. word_of_int (x div 2 ^ (8 * j)) :: byte) [Suc m..<Suc m + n]) 0"
  have up: "[m..<m + Suc n] = m # [Suc m..<Suc m + n]"
    by (simp add: upt_conv_Cons)
  have "x div 2 ^ (8 * Suc m) = x div (2 ^ (8 * m) * 256)"
    by (simp add: power_add mult.commute)
  also have "\<dots> = x div 2 ^ (8 * m) div 256"
    by (rule zdiv_zmult2_eq) simp
  finally have d: "x div 2 ^ (8 * Suc m) = y div 256"
    by (simp add: y_def)
  have r: "rest = (y div 256) mod 2 ^ (8 * n)"
    unfolding rest_def using Suc.IH[of "Suc m"] by (simp only: d)
  have u: "uint (word_of_int y :: byte) = y mod 256"
    by (simp add: uint_word_of_int take_bit_eq_mod)
  have "y mod 2 ^ (8 * Suc n) = y mod (256 * 2 ^ (8 * n))"
    by (simp add: power_add mult.commute)
  also have "\<dots> = 256 * ((y div 256) mod 2 ^ (8 * n)) + y mod 256"
    by (rule zmod_zmult2_eq) simp
  finally have m: "y mod 2 ^ (8 * Suc n) = 256 * rest + y mod 256"
    by (simp only: r)
  have "foldr (\<lambda>b acc. uint b + 256 * acc)
          (map (\<lambda>j. word_of_int (x div 2 ^ (8 * j)) :: byte) [m..<m + Suc n]) 0
        = uint (word_of_int y :: byte) + 256 * rest"
    unfolding up rest_def y_def by simp
  then show ?case
    unfolding u m y_def[symmetric] by simp
qed

lemma int64_roundtrip:
  assumes "- (2 ^ 63) \<le> x" "x < 2 ^ 63"
  shows "int64_of_bytes (int64_bytes x) = x"
proof -
  have "foldr (\<lambda>b acc. uint b + 256 * acc) (int64_bytes x) 0 = x mod 2 ^ 64"
    using bytes_value[of x 0 8] by (simp add: int64_bytes_def)
  then have "int64_of_bytes (int64_bytes x) = sint (word_of_int (x mod 2 ^ 64) :: 64 word)"
    by (simp add: int64_of_bytes_def)
  also have "\<dots> = sint (word_of_int x :: 64 word)"
  proof -
    have "(word_of_int (x mod 2 ^ 64) :: 64 word) = word_of_int x"
      by (simp add: word_of_int_eq_iff take_bit_eq_mod)
    then show ?thesis by simp
  qed
  also have "\<dots> = x"
    using assms by (simp add: sint_sbintrunc' signed_take_bit_int_eq_self)
  finally show ?thesis .
qed

lemma length_int64_bytes: "length (int64_bytes x) = 8"
  by (simp add: int64_bytes_def)

lemma read_bytes_append: "length bs = n \<Longrightarrow> read_bytes n (bs @ rest) = Some (bs, rest)"
  by (simp add: read_bytes_def)

lemma read_int64_roundtrip:
  "fits_int64 x \<Longrightarrow> read_int64 (int64_bytes x @ rest) = Some (x, rest)"
  by (simp add: read_int64_def read_bytes_append length_int64_bytes int64_roundtrip fits_int64_def)

lemma read_int64s_roundtrip:
  "list_all fits_int64 v \<Longrightarrow>
   read_int64s (length v) (concat (map int64_bytes v) @ rest) = Some (v, rest)"
  by (induction v) (simp_all add: read_int64_roundtrip)

lemma load_std_vector_roundtrip:
  assumes "list_all fits_int64 v" "fits_int64 (8 * int (length v))"
  shows "load_std_vector (snd (serialize_std_vector v) @ rest) = Some (v, rest)"
  using assms
  by (simp add: load_std_vector_def serialize_std_vector_def Let_def read_int64_roundtrip
      read_int64s_roundtrip)

lemma length_bit_vector_bytes: "length (bit_vector_bytes bv) = 8 * bit_vector_words bv"
  by (simp add: bit_vector_bytes_def)

lemma bit_of_packed_byte:
  assumes "i < length bv"
  shows "bit (bit_vector_bytes bv ! (i div 8)) (i mod 8) = bv ! i"
proof -
  have j: "i div 8 < 8 * bit_vector_words bv"
    using assms by (auto simp: bit_vector_words_def)
  have "bit_vector_bytes bv ! (i div 8) =
          (horner_sum of_bool 2
             (map (\<lambda>i'. 8 * (i div 8) + i' < length bv \<and> bv ! (8 * (i div 8) + i')) [0..<8]) :: byte)"
    using j by (simp add: bit_vector_bytes_def)
  then show ?thesis
    using assms by (simp add: bit_horner_sum_bit_iff)
qed

lemma bit_vector_roundtrip:
  assumes "fits_int64 (int (length bv))"
  shows "bit_vector_load (snd (bit_vector_serialize bv) @ rest) = Some (bv, rest)"
proof -
  have "map (\<lambda>i. bit (bit_vector_bytes bv ! (i div 8)) (i mod 8)) [0..<length bv] = bv"
    by (rule nth_equalityI) (simp_all add: bit_of_packed_byte)
  then show ?thesis
    using assms
    by (simp add: bit_vector_load_def bit_vector_serialize_def read_int64_roundtrip
        read_bytes_append length_bit_vector_bytes bit_vector_words_def)
qed

lemma matrix_roundtrip:
  assumes "fits_int64 (int (length A_bits))" "fits_int64 (int (length C_bits))"
    "fits_int64 (int (length G_bits))" "fits_int64 (int (length T_bits))"
  shows "matrix_load (snd (matrix_serialize (SubsetMatrix A_bits C_bits G_bits T_bits)) @ rest)
           = Some (SubsetMatrix A_bits C_bits G_bits T_bits, rest)"
  using assms by (simp add: matrix_load_def bit_vector_roundtrip)

lemma load_serialize:
  assumes rank_rt: "\<And>rest. rank_load (snd (rank_serialize (get_subset_rank_structure idx)) @ rest)
                       = Some (get_subset_rank_structure idx, rest)"
    and "fits_int64 (int (length (get_streaming_support idx)))"
    and "list_all fits_int64 (get_C_array idx)" "fits_int64 (8 * int (length (get_C_array idx)))"
    and "fits_int64 (number_of_subsets idx)" "fits_int64 (get_k idx)"
  shows "load rank_load this (snd (serialize rank_serialize idx) @ rest)
           = Some (idx\<lparr>number_of_kmers := number_of_kmers this\<rparr>, rest)"
proof -
  obtain w1 out1 where s1: "rank_serialize (get_subset_rank_structure idx) = (w1, out1)"
    by (cases "rank_serialize (get_subset_rank_structure idx)")
  obtain w2 out2 where s2: "bit_vector_serialize (get_streaming_support idx) = (w2, out2)"
    by (cases "bit_vector_serialize (get_streaming_support idx)")
  obtain w3 out3 where s3: "serialize_std_vector (get_C_array idx) = (w3, out3)"
    by (cases "serialize_std_vector (get_C_array idx)")
  have r1: "\<And>rest. rank_load (out1 @ rest) = Some (get_subset_rank_structure idx, rest)"
    using rank_rt s1 by simp
  have r2: "\<And>rest. bit_vector_load (out2 @ rest) = Some (get_streaming_support idx, rest)"
    using bit_vector_roundtrip[OF assms(2)] s2 by simp
  have r3: "\<And>rest. load_std_vector (out3 @ rest) = Some (get_C_array idx, rest)"
    using load_std_vector_roundtrip[OF assms(3,4)] s3 by simp
  have flag: "\<And>b. read_bytes (Suc 0) (b # rest) = Some ([b], rest)"
    by (simp add: read_bytes_def)
  have eq: "this\<lparr>get_subset_rank_structure := get_subset_rank_structure idx,
                 get_streaming_support := get_streaming_support idx,
                 get_C_array := get_C_array idx,
                 number_of_subsets := number_of_subsets idx,
                 get_k := get_k idx,
                 is_colex := b\<rparr> = idx\<lparr>number_of_kmers := number_of_kmers this\<rparr>"
    if "b = is_colex idx" for b
    using that by simp
  show ?thesis
    by (cases "is_colex idx")
      (simp_all add: load_def serialize_def s1 s2 s3 r1 r2 r3 flag eq
        read_int64_roundtrip[OF assms(5)] read_int64_roundtrip[OF assms(6)])
qed

subsection \<open>The queries do not read the number of k-mers\<close>

lemma same_query_fieldsD:
  assumes "same_query_fields idx idx'"
  shows "is_colex idx' = is_colex idx"
    "get_subset_rank_structure idx' = get_subset_rank_structure idx"
    "get_streaming_support idx' = get_streaming_support idx"
    "get_C_array idx' = get_C_array idx"
    "number_of_subsets idx' = number_of_subsets idx"
    "get_k idx' = get_k idx"
  using assms by (simp_all add: same_query_fields_def)

lemma search_loop_same_fields:
  assumes "same_query_fields idx idx'"
  shows "search_loop rank idx' S i l r = search_loop rank idx S i l r"
proof (induction "nat (get_k idx - i)" arbitrary: i l r)
  case 0
  then have "\<not> i < get_k idx" by simp
  then show ?case
    by (simp add: search_loop_unfold[of _ _ _ i] same_query_fieldsD[OF assms])
next
  case (Suc n)
  have IH: "\<And>l r. search_loop rank idx' S (i + 1) l r = search_loop rank idx S (i + 1) l r"
    using Suc.hyps(1)[of "i + 1"] Suc.hyps(2) by simp
  show ?case
    by (simp add: search_loop_unfold[of _ _ _ i] same_query_fieldsD[OF assms] IH Let_def
        cong: option.case_cong if_cong)
qed

lemma search_same_fields:
  assumes "same_query_fields idx idx'"
  shows "search rank idx' S = search rank idx S"
  by (simp add: search_def search_loop_same_fields[OF assms] same_query_fieldsD[OF assms])

lemma step_same_fields:
  assumes "same_query_fields idx idx'"
  shows "streaming_search_step rank idx' s len i prev = streaming_search_step rank idx s len i prev"
  unfolding streaming_search_step_def first_kmer_start_def search_same_fields[OF assms]
    same_query_fieldsD[OF assms]
  by (rule refl)

lemma loop_same_fields:
  assumes "same_query_fields idx idx'"
  shows "streaming_search_loop rank idx' s len i ans = streaming_search_loop rank idx s len i ans"
proof (induction "nat (len - get_k idx + 1 - i)" arbitrary: i ans)
  case 0
  then have "\<not> i < len - get_k idx + 1" by simp
  then show ?case
    by (simp add: streaming_search_loop.simps[of _ _ _ _ i] same_query_fieldsD[OF assms])
next
  case (Suc n)
  have IH: "\<And>ans. streaming_search_loop rank idx' s len (i + 1) ans
                  = streaming_search_loop rank idx s len (i + 1) ans"
    using Suc.hyps(1)[of "i + 1"] Suc.hyps(2) by simp
  show ?case
    by (simp add: streaming_search_loop.simps[of _ _ _ _ i] step_same_fields[OF assms] IH
        same_query_fieldsD[OF assms] cong: sum.case_cong if_cong)
qed

lemma streaming_search_same_fields:
  assumes "same_query_fields idx idx'"
  shows "streaming_search rank idx' s len = streaming_search rank idx s len"
  unfolding streaming_search_def first_kmer_start_def search_same_fields[OF assms]
    loop_same_fields[OF assms] same_query_fieldsD[OF assms]
  by (rule refl)

lemma queries_ignore_number_of_kmers:
  "search rank (idx\<lparr>number_of_kmers := n\<rparr>) S = search rank idx S"
  "streaming_search rank (idx\<lparr>number_of_kmers := n\<rparr>) s len = streaming_search rank idx s len"
proof -
  have "same_query_fields idx (idx\<lparr>number_of_kmers := n\<rparr>)"
    by (simp add: same_query_fields_def)
  then show "search rank (idx\<lparr>number_of_kmers := n\<rparr>) S = search rank idx S"
    and "streaming_search rank (idx\<lparr>number_of_kmers := n\<rparr>) s len = streaming_search rank idx s len"
    by (rule search_same_fields, rule streaming_search_same_fields)
qed

subsection \<open>The field that is not written\<close>

lemma load_keeps_number_of_kmers:
  "load rank_load this inp = Some (idx', rest) \<Longrightarrow> number_of_kmers idx' = number_of_kmers this"
  by (auto simp: load_def split: option.splits prod.splits)


text \<open>
  Claim C2 fails on the code. \<^verbatim>\<open>serialize\<close> does not write \<^verbatim>\<open>n_kmers\<close> and \<^verbatim>\<open>load\<close> does not
  assign it, while every other field is written and read back. The index of the scenario
  holds 6 k-mers; loaded from its own serialization into a default-constructed object, it
  is the same index except that \<^verbatim>\<open>number_of_kmers()\<close> is 0.
\<close>

theorem load_forgets_number_of_kmers:
  "load matrix_load (SBWT_default (SubsetMatrix [] [] [] []))
     (snd (serialize matrix_serialize example_index))
     = Some (example_index\<lparr>number_of_kmers := 0\<rparr>, []) \<and>
   number_of_kmers example_index = 6 \<and>
   number_of_kmers (example_index\<lparr>number_of_kmers := 0\<rparr>) = 0"
  by code_simp

end
